theory Spec2Isabelle
  imports Complex_Main "HOL-Library.Word" "HOL-Library.Multiset"
begin

unbundle bit_operations_syntax

section \<open>Octant and quadrant arrays of the Python layer (tmr/TMR.pyx)\<close>

text \<open>
  The wrapper classes \<^verbatim>\<open>OctantArray\<close> and \<^verbatim>\<open>QuadrantArray\<close> hold a pointer to an
  array of octants (quadrants) of the library. \<^verbatim>\<open>getArray\<close> hands out the buffer and
  its length, so the array is modelled by the list of its entries, and the length by the
  length of the list. The index \<^verbatim>\<open>k\<close> is a C \<^verbatim>\<open>int\<close>; it is compared, never used in
  arithmetic, so it is an \<open>int\<close> here (the conversion of the Python index to that
  \<^verbatim>\<open>int\<close> happens before the body runs and is not part of it). The fields are copied,
  never computed with.
\<close>

record Octant =
  oct_x :: int
  oct_y :: int
  oct_z :: int
  oct_level :: int
  oct_block :: int
  oct_tag :: int

record Quadrant =
  quad_x :: int
  quad_y :: int
  quad_level :: int
  quad_face :: int
  quad_tag :: int

text \<open>The exceptions of the Python layer; \<open>IndexError\<close> carries its message.\<close>

datatype pyerror = IndexError string | BufferOverrun

text \<open>The \<^verbatim>\<open>%d\<close> conversion of a machine integer.\<close>

fun dec_nat :: "nat \<Rightarrow> string" where
  "dec_nat n =
     (if n < 10 then [char_of (48 + n)]
      else dec_nat (n div 10) @ [char_of (48 + n mod 10)])"

definition dec_int :: "int \<Rightarrow> string" where
  "dec_int i = (if i < 0 then CHR ''-'' # dec_nat (nat (- i)) else dec_nat (nat i))"

definition range_errmsg :: "string \<Rightarrow> int \<Rightarrow> int \<Rightarrow> string" where
  "range_errmsg what k sz =
     what @ '' array index '' @ dec_int k @ '' out of range [0,'' @ dec_int sz @ '')''"

text \<open>
  \<^verbatim>\<open>Octant()\<close> runs \<^verbatim>\<open>__cinit__\<close>, which zeroes the six fields; \<^verbatim>\<open>__getitem__\<close> then
  assigns each of them from the stored entry.
\<close>

definition Octant_cinit :: Octant where
  "Octant_cinit = \<lparr>oct_x = 0, oct_y = 0, oct_z = 0, oct_level = 0, oct_block = 0, oct_tag = 0\<rparr>"

definition Quadrant_cinit :: Quadrant where
  "Quadrant_cinit = \<lparr>quad_x = 0, quad_y = 0, quad_level = 0, quad_face = 0, quad_tag = 0\<rparr>"

text \<open>
  Both operations return the outcome (the exception or the value) together with the
  array as it is afterwards.
\<close>

definition OctantArray_getitem :: "Octant list \<Rightarrow> int \<Rightarrow> (pyerror + Octant) \<times> Octant list" where
  "OctantArray_getitem array k =
     (let sz = int (length array) in
      if k < 0 \<or> k \<ge> sz then (Inl (IndexError (range_errmsg ''Octant'' k sz)), array)
      else
        let e = array ! nat k;
            oc = Octant_cinit;
            oc = oc\<lparr>oct_x := oct_x e\<rparr>;
            oc = oc\<lparr>oct_y := oct_y e\<rparr>;
            oc = oc\<lparr>oct_z := oct_z e\<rparr>;
            oc = oc\<lparr>oct_level := oct_level e\<rparr>;
            oc = oc\<lparr>oct_block := oct_block e\<rparr>;
            oc = oc\<lparr>oct_tag := oct_tag e\<rparr>
        in (Inr oc, array))"

definition OctantArray_setitem :: "Octant list \<Rightarrow> int \<Rightarrow> Octant \<Rightarrow> (pyerror + unit) \<times> Octant list" where
  "OctantArray_setitem array k oc =
     (let sz = int (length array) in
      if k < 0 \<or> k \<ge> sz then (Inl (IndexError (range_errmsg ''Octant'' k sz)), array)
      else
        let e = array ! nat k;
            e = e\<lparr>oct_x := oct_x oc\<rparr>;
            e = e\<lparr>oct_y := oct_y oc\<rparr>;
            e = e\<lparr>oct_z := oct_z oc\<rparr>;
            e = e\<lparr>oct_level := oct_level oc\<rparr>;
            e = e\<lparr>oct_block := oct_block oc\<rparr>;
            e = e\<lparr>oct_tag := oct_tag oc\<rparr>
        in (Inr (), array[nat k := e]))"

definition QuadrantArray_getitem :: "Quadrant list \<Rightarrow> int \<Rightarrow> (pyerror + Quadrant) \<times> Quadrant list" where
  "QuadrantArray_getitem array k =
     (let sz = int (length array) in
      if k < 0 \<or> k \<ge> sz then (Inl (IndexError (range_errmsg ''Quadrant'' k sz)), array)
      else
        let e = array ! nat k;
            quad = Quadrant_cinit;
            quad = quad\<lparr>quad_x := quad_x e\<rparr>;
            quad = quad\<lparr>quad_y := quad_y e\<rparr>;
            quad = quad\<lparr>quad_level := quad_level e\<rparr>;
            quad = quad\<lparr>quad_face := quad_face e\<rparr>;
            quad = quad\<lparr>quad_tag := quad_tag e\<rparr>
        in (Inr quad, array))"

definition QuadrantArray_setitem :: "Quadrant list \<Rightarrow> int \<Rightarrow> Quadrant \<Rightarrow> (pyerror + unit) \<times> Quadrant list" where
  "QuadrantArray_setitem array k quad =
     (let sz = int (length array) in
      if k < 0 \<or> k \<ge> sz then (Inl (IndexError (range_errmsg ''Quadrant'' k sz)), array)
      else
        let e = array ! nat k;
            e = e\<lparr>quad_x := quad_x quad\<rparr>;
            e = e\<lparr>quad_y := quad_y quad\<rparr>;
            e = e\<lparr>quad_level := quad_level quad\<rparr>;
            e = e\<lparr>quad_face := quad_face quad\<rparr>;
            e = e\<lparr>quad_tag := quad_tag quad\<rparr>
        in (Inr (), array[nat k := e]))"

section \<open>Element connectivity handed to Python (QuadForest.createMeshConn)\<close>

text \<open>
  The method asks the library for the mesh order, for the connectivity buffer \<^verbatim>\<open>conn\<close>
  and for the number of elements, and copies the buffer into a fresh
  \<^verbatim>\<open>nelems\<close> by \<^verbatim>\<open>order*order\<close> array of zeros. The three values that come from the
  library are the parameters of the model. A read of \<^verbatim>\<open>conn\<close> is a read of a C buffer:
  past its end the model stops with \<open>BufferOverrun\<close>.
\<close>

definition conn_at :: "int list \<Rightarrow> nat \<Rightarrow> pyerror + int" where
  "conn_at conn i = (if i < length conn then Inr (conn ! i) else Inl BufferOverrun)"

fun collect :: "(pyerror + 'a) list \<Rightarrow> pyerror + 'a list" where
  "collect [] = Inr []"
| "collect (Inl e # rs) = Inl e"
| "collect (Inr v # rs) = (case collect rs of Inl e \<Rightarrow> Inl e | Inr vs \<Rightarrow> Inr (v # vs))"

definition quads_row :: "int list \<Rightarrow> nat \<Rightarrow> nat \<Rightarrow> pyerror + int list" where
  "quads_row conn base n = collect (map (\<lambda>j. conn_at conn (base + j)) [0..<n])"

definition QuadForest_createMeshConn :: "int \<Rightarrow> int list \<Rightarrow> nat \<Rightarrow> pyerror + int list list" where
  "QuadForest_createMeshConn order conn nelems =
     (if order = 2 then collect (map (\<lambda>i. quads_row conn (4 * i) 4) [0..<nelems])
      else if order = 3 then collect (map (\<lambda>i. quads_row conn (4 * i) 9) [0..<nelems])
      else Inr (replicate nelems (replicate (nat (order * order)) 0)))"

text \<open>The block of the connectivity that belongs to element \<open>k\<close> for \<open>n\<close> nodes per element.\<close>

definition conn_block :: "int list \<Rightarrow> nat \<Rightarrow> nat \<Rightarrow> int list" where
  "conn_block conn n k = take n (drop (n * k) conn)"

section \<open>Index/weight pairs (TMRBase.h)\<close>

text \<open>
  \<^verbatim>\<open>TMRIndexWeight\<close> pairs a node index (a C \<^verbatim>\<open>int\<close>, 32 bits, two's complement) with
  an interpolation weight (a \<^verbatim>\<open>double\<close>). The index is a \<open>32 word\<close>, read as signed by
  \<open>sint\<close>. The weight is a \<open>double\<close>, added with \<open>dadd\<close>.
\<close>

text \<open>
  A \<^verbatim>\<open>double\<close> is an IEEE 754 binary64 value: \<open>Finite s m e\<close> stands for
  \<open>(-1)^s * m * 2^e\<close> (a double has \<open>m < 2^53\<close> and \<open>-1074 \<le> e \<le> 971\<close>), next to the two
  infinities and NaN.
\<close>

datatype double = Finite bool nat int | Infinity bool | NaN

text \<open>The number of binary digits of \<open>n\<close>.\<close>

fun nbits :: "nat \<Rightarrow> nat" where
  "nbits n = (if n = 0 then 0 else Suc (nbits (n div 2)))"

declare nbits.simps [simp del]

text \<open>\<open>n / 2^k\<close> rounded to the nearest integer, a tie to the even one.\<close>

definition round_half_even :: "nat \<Rightarrow> nat \<Rightarrow> nat" where
  "round_half_even n k =
     (if k = 0 then n
      else if 2 ^ (k - 1) < n mod 2 ^ k \<or> (n mod 2 ^ k = 2 ^ (k - 1) \<and> odd (n div 2 ^ k))
      then n div 2 ^ k + 1
      else n div 2 ^ k)"

text \<open>A rounded magnitude of \<open>2^1024\<close> or more overflows to infinity.\<close>

definition pack :: "bool \<Rightarrow> nat \<Rightarrow> int \<Rightarrow> double" where
  "pack s q e = (if 1024 < int (nbits q) + e then Infinity s else Finite s q e)"

text \<open>The magnitude \<open>n * 2^e\<close> rounded to 53 significant bits.\<close>

definition round_pack :: "bool \<Rightarrow> nat \<Rightarrow> int \<Rightarrow> double" where
  "round_pack s n e = pack s (round_half_even n (nbits n - 53)) (e + int (nbits n - 53))"

text \<open>The mantissa of a finite double with its sign.\<close>

definition signed_mant :: "bool \<Rightarrow> nat \<Rightarrow> int" where
  "signed_mant s m = (if s then - int m else int m)"

text \<open>
  The double for the exact sum \<open>t * 2^e\<close>: a zero keeps the sign \<open>z\<close>, every other sum is
  rounded.
\<close>

definition finish :: "bool \<Rightarrow> int \<Rightarrow> int \<Rightarrow> double" where
  "finish z t e = (if t = 0 then Finite z 0 e else round_pack (t < 0) (nat \<bar>t\<bar>) e)"

text \<open>
  The addition of two doubles, as \<^verbatim>\<open>+=\<close> performs it in the default rounding mode: the
  exact sum, rounded to the nearest double, a tie to the even mantissa. A sum of zero
  is \<open>-0\<close> only when both operands are negative.
\<close>

fun dadd :: "double \<Rightarrow> double \<Rightarrow> double" where
  "dadd (Finite s1 m1 e1) (Finite s2 m2 e2) =
     finish (s1 \<and> s2)
       (signed_mant s1 m1 * 2 ^ nat (e1 - min e1 e2) + signed_mant s2 m2 * 2 ^ nat (e2 - min e1 e2))
       (min e1 e2)"
| "dadd (Finite s1 m1 e1) (Infinity s2) = Infinity s2"
| "dadd (Infinity s1) (Finite s2 m2 e2) = Infinity s1"
| "dadd (Infinity s1) (Infinity s2) = (if s1 = s2 then Infinity s1 else NaN)"
| "dadd NaN b = NaN"
| "dadd a NaN = NaN"

record TMRIndexWeight =
  index :: "32 word"
  weight :: double

text \<open>
  \<^verbatim>\<open>compare_weights\<close> returns \<^verbatim>\<open>A->index - B->index\<close>, an \<^verbatim>\<open>int\<close> subtraction. The
  language leaves an overflow of it undefined; the model takes it modulo \<open>2^32\<close>, as the
  two's complement hardware does.
\<close>

definition compare_weights :: "TMRIndexWeight \<Rightarrow> TMRIndexWeight \<Rightarrow> int" where
  "compare_weights A B = sint (index A - index B)"

text \<open>
  \<^verbatim>\<open>qsort\<close> is the C library's: it orders the first \<open>sz\<close> entries by the comparator it
  is given and leaves the order of entries that compare equal open. It is modelled by
  insertion sort, which asks the comparator \<^verbatim>\<open>compare_weights(a, b) <= 0\<close> to place \<open>a\<close>
  before \<open>b\<close>. The results below on sorted input hold for every order of the entries
  of one index (\<open>loops_on_sorted\<close>).
\<close>

fun qsort_insert :: "TMRIndexWeight \<Rightarrow> TMRIndexWeight list \<Rightarrow> TMRIndexWeight list" where
  "qsort_insert a [] = [a]"
| "qsort_insert a (b # bs) =
     (if compare_weights a b \<le> 0 then a # b # bs else b # qsort_insert a bs)"

definition qsort :: "TMRIndexWeight list \<Rightarrow> nat \<Rightarrow> TMRIndexWeight list" where
  "qsort array sz = foldr qsort_insert (take sz array) [] @ drop sz array"

text \<open>
  The inner \<^verbatim>\<open>while\<close> loop of \<^verbatim>\<open>uniqueSort\<close>: as long as the next entry carries the index
  of entry \<open>i\<close>, its weight is added to entry \<open>j\<close>. It returns the array and \<open>i\<close>.
\<close>

function uniq_inner :: "TMRIndexWeight list \<Rightarrow> nat \<Rightarrow> nat \<Rightarrow> nat \<Rightarrow> TMRIndexWeight list \<times> nat" where
  "uniq_inner array sz i j =
     (if int i < int sz - 1 \<and> index (array ! i) = index (array ! (i + 1))
      then uniq_inner
             (array[j := (array ! j)\<lparr>weight := dadd (weight (array ! j)) (weight (array ! (i + 1)))\<rparr>])
             sz (i + 1) j
      else (array, i))"
  by pat_completeness auto
termination
  by (relation "measure (\<lambda>(array, sz, i, j). sz - i)") auto

declare uniq_inner.simps [simp del]

lemma uniq_inner_ge: "i \<le> snd (uniq_inner array sz i j)"
proof (induction array sz i j rule: uniq_inner.induct)
  case (1 array sz i j)
  then show ?case
    by (subst uniq_inner.simps) (auto simp del: of_nat_Suc)
qed

text \<open>
  The \<^verbatim>\<open>for\<close> loop: entry \<open>i\<close> is copied to place \<open>j\<close> when the two differ, the inner loop
  runs, and both counters advance. It returns the array and \<open>j\<close>.
\<close>

function uniq_outer :: "TMRIndexWeight list \<Rightarrow> nat \<Rightarrow> nat \<Rightarrow> nat \<Rightarrow> TMRIndexWeight list \<times> nat" where
  "uniq_outer array sz i j =
     (if i < sz then
        let array = (if i \<noteq> j then array[j := array ! i] else array);
            r = uniq_inner array sz i j
        in uniq_outer (fst r) sz (snd r + 1) (j + 1)
      else (array, j))"
  by pat_completeness auto
termination
proof (relation "measure (\<lambda>(array, sz, i, j). sz - i)")
  show "wf (measure (\<lambda>(array, sz, i, j). sz - i))" by simp
next
  fix array :: "TMRIndexWeight list" and sz i j :: nat and x xa
  assume "i < sz" "x = (if i \<noteq> j then array[j := array ! i] else array)" "xa = uniq_inner x sz i j"
  moreover have "i \<le> snd (uniq_inner x sz i j)" by (rule uniq_inner_ge)
  ultimately show "((fst xa, sz, snd xa + 1, j + 1), array, sz, i, j) \<in> measure (\<lambda>(array, sz, i, j). sz - i)"
    by simp
qed

declare uniq_outer.simps [simp del]

text \<open>
  \<^verbatim>\<open>uniqueSort\<close>: the sort, then the loops from \<open>i = 0\<close> and \<open>j = 0\<close>. It returns the array
  as it is afterwards, and \<open>j\<close>.
\<close>

definition uniqueSort :: "TMRIndexWeight list \<Rightarrow> nat \<Rightarrow> TMRIndexWeight list \<times> nat" where
  "uniqueSort array sz = uniq_outer (qsort array sz) sz 0 0"

text \<open>
  What the loops compute, as a function on lists: every run of neighbouring entries with
  one index becomes a single entry; the weights of the run are added to its first, one by
  one.
\<close>

fun merge_runs :: "TMRIndexWeight list \<Rightarrow> TMRIndexWeight list" where
  "merge_runs [] = []"
| "merge_runs [a] = [a]"
| "merge_runs (a # b # xs) =
     (if index a = index b then merge_runs (a\<lparr>weight := dadd (weight a) (weight b)\<rparr> # xs)
      else a # merge_runs (b # xs))"

text \<open>
  The sum that the loops build for one index: the first weight, with the others added
  to it from left to right.
\<close>

fun dsum :: "double list \<Rightarrow> double" where
  "dsum [] = Finite False 0 0"
| "dsum (w # ws) = foldl dadd w ws"

text \<open>
  The real number that a finite double stands for. An infinity and NaN stand for no
  number; they are given 0 here and excluded by \<open>is_finite\<close> wherever \<open>dval\<close> is used.
\<close>

fun dval :: "double \<Rightarrow> real" where
  "dval (Finite s m e) = (if s then - 1 else 1) * real m * 2 powi e"
| "dval (Infinity s) = 0"
| "dval NaN = 0"

fun is_finite :: "double \<Rightarrow> bool" where
  "is_finite (Finite s m e) = True"
| "is_finite (Infinity s) = False"
| "is_finite NaN = False"

text \<open>An addition of two finite doubles that neither rounds nor overflows.\<close>

definition exact_add :: "double \<Rightarrow> double \<Rightarrow> bool" where
  "exact_add a b \<longleftrightarrow> is_finite a \<and> is_finite b \<and> is_finite (dadd a b)
     \<and> dval (dadd a b) = dval a + dval b"

text \<open>
  All weights of a sorted array are finite, and none of the additions that the loops
  perform on it rounds or overflows.
\<close>

fun runs_exact :: "TMRIndexWeight list \<Rightarrow> bool" where
  "runs_exact [] = True"
| "runs_exact [a] = is_finite (weight a)"
| "runs_exact (a # b # xs) =
     (if index a = index b
      then exact_add (weight a) (weight b)
           \<and> runs_exact (a\<lparr>weight := dadd (weight a) (weight b)\<rparr> # xs)
      else is_finite (weight a) \<and> runs_exact (b # xs))"

text \<open>
  Four entries with two indices alike (the weights 1, 2, 4 and 1/2), two entries whose
  indices are too far apart for the comparator, and three entries of one index with the
  weights \<open>10^16\<close>, \<open>1\<close> and \<open>-10^16\<close>, for runs of \<^verbatim>\<open>uniqueSort\<close>.
\<close>

definition sample_weights :: "TMRIndexWeight list" where
  "sample_weights = [\<lparr>index = 5, weight = Finite False 1 0\<rparr>, \<lparr>index = 3, weight = Finite False 1 1\<rparr>,
     \<lparr>index = 5, weight = Finite False 1 2\<rparr>, \<lparr>index = - 1, weight = Finite False 1 (- 1)\<rparr>]"

definition far_apart :: "TMRIndexWeight list" where
  "far_apart = [\<lparr>index = - 2147483648, weight = Finite False 1 0\<rparr>,
     \<lparr>index = 1, weight = Finite False 1 1\<rparr>]"

definition cancelling :: "TMRIndexWeight list" where
  "cancelling = [\<lparr>index = 4, weight = Finite False 152587890625 16\<rparr>,
     \<lparr>index = 4, weight = Finite False 1 0\<rparr>,
     \<lparr>index = 4, weight = Finite True 152587890625 16\<rparr>]"

text \<open>The indices of a list are such that no subtraction in the comparator overflows.\<close>

definition no_overflow :: "TMRIndexWeight list \<Rightarrow> bool" where
  "no_overflow xs \<longleftrightarrow>
     (\<forall>a \<in> set xs. \<forall>b \<in> set xs. - (2 ^ 31) \<le> sint (index a) - sint (index b)
        \<and> sint (index a) - sint (index b) < 2 ^ 31)"

section \<open>Node numbering\<close>

text \<open>
  The forest classes of the library (\<^verbatim>\<open>TMROctForest\<close>, \<^verbatim>\<open>TMRQuadForest\<close>) are only
  called here, by the Python layer and by the driver program; their bodies are not part
  of these sources. What this section says about them is modelled from the
  specification.
\<close>

text \<open>
  The nodes that rank \<open>r\<close> holds after the candidates of its blocks have been inserted and
  deduplicated are the list \<open>held ! r\<close>; a node on a shared face, edge or corner occurs in
  the lists of all ranks that hold an incident block.
\<close>

text \<open>
  Modelled from the spec: the nodes that rank \<open>r\<close> owns, "the owning rank is the minimum
  rank among all ranks holding an incident block" (the body of \<^verbatim>\<open>createNodes\<close> is
  missing).
\<close>

definition owned :: "'n list list \<Rightarrow> nat \<Rightarrow> 'n list" where
  "owned held r = filter (\<lambda>n. list_all (\<lambda>q. n \<notin> set (held ! q)) [0..<r]) (held ! r)"

text \<open>
  Modelled from the spec: the "per-rank prefix-sum of owned nodes" (body of
  \<^verbatim>\<open>createNodes\<close> missing): entry \<open>r\<close> is the number of nodes owned by the ranks below \<open>r\<close>.
\<close>

definition owned_node_range :: "'n list list \<Rightarrow> nat list" where
  "owned_node_range held =
     map (\<lambda>r. sum_list (map (\<lambda>q. length (owned held q)) [0..<r])) [0..<length held + 1]"

text \<open>
  Modelled from the spec: "owners assign a contiguous range of global indices" (body of
  \<^verbatim>\<open>createNodes\<close> missing): rank \<open>r\<close> numbers its nodes from entry \<open>r\<close> of the range on.
\<close>

definition assign :: "'n list list \<Rightarrow> nat \<Rightarrow> ('n \<times> nat) list" where
  "assign held r =
     zip (owned held r) [owned_node_range held ! r ..< owned_node_range held ! r + length (owned held r)]"

text \<open>
  Modelled from the spec: the numbering that \<^verbatim>\<open>createNodes\<close> leaves behind (body
  missing), as the list of all nodes with their global indices.
\<close>

definition TMROctForest_createNodes :: "'n list list \<Rightarrow> ('n \<times> nat) list" where
  "TMROctForest_createNodes held = concat (map (assign held) [0..<length held])"

text \<open>
  Modelled from the spec: \<^verbatim>\<open>getOwnedNodeRange\<close> (body missing), which returns the number of
  ranks and hands out the range.
\<close>

definition TMROctForest_getOwnedNodeRange :: "'n list list \<Rightarrow> nat \<times> int list" where
  "TMROctForest_getOwnedNodeRange held = (length held, map int (owned_node_range held))"

text \<open>
  \<^verbatim>\<open>OctForest.getNodeRange\<close> of the Python layer: with the size \<open>sz\<close> that the library
  returns, it copies the entries \<open>0, ..., sz\<close> of the range into a new array.
\<close>

definition OctForest_getNodeRange :: "nat \<times> int list \<Rightarrow> pyerror + int list" where
  "OctForest_getNodeRange res =
     (case res of (sz, node_range) \<Rightarrow> collect (map (\<lambda>i. conn_at node_range i) [0..<sz + 1]))"

text \<open>Four ranks and the nodes they hold, for a run of the numbering.\<close>

definition four_ranks :: "string list list" where
  "four_ranks = [[''a'', ''b'', ''c''], [''b'', ''d''], [], [''e'', ''a'', ''d'']]"

section \<open>Results on the Python layer\<close>

lemma collect_cong_Inr:
  "(\<And>i. i \<in> set xs \<Longrightarrow> g i = Inr (f i)) \<Longrightarrow> collect (map g xs) = Inr (map f xs)"
  by (induction xs) auto

lemma quads_row_in_range:
  assumes "base + n \<le> length conn"
  shows "quads_row conn base n = Inr (take n (drop base conn))"
proof -
  have "quads_row conn base n = Inr (map (\<lambda>j. conn ! (base + j)) [0..<n])"
    unfolding quads_row_def using assms
    by (intro collect_cong_Inr) (simp add: conn_at_def)
  moreover have "map (\<lambda>j. conn ! (base + j)) [0..<n] = take n (drop base conn)"
    using assms by (intro nth_equalityI) auto
  ultimately show ?thesis by simp
qed

lemma createMeshConn_order2:
  assumes "length conn = 4 * nelems"
  shows "QuadForest_createMeshConn 2 conn nelems = Inr (map (conn_block conn 4) [0..<nelems])"
proof -
  have "\<And>i. i \<in> set [0..<nelems] \<Longrightarrow> quads_row conn (4 * i) 4 = Inr (conn_block conn 4 i)"
    using assms by (simp add: quads_row_in_range conn_block_def)
  then have "collect (map (\<lambda>i. quads_row conn (4 * i) 4) [0..<nelems])
             = Inr (map (conn_block conn 4) [0..<nelems])"
    by (rule collect_cong_Inr)
  then show ?thesis
    unfolding QuadForest_createMeshConn_def by simp
qed

lemma createMeshConn_order3:
  assumes "length conn = 9 * nelems"
  shows "QuadForest_createMeshConn 3 conn nelems =
         Inr (map (\<lambda>i. take 9 (drop (4 * i) conn)) [0..<nelems])"
proof -
  have "\<And>i. i \<in> set [0..<nelems] \<Longrightarrow> quads_row conn (4 * i) 9 = Inr (take 9 (drop (4 * i) conn))"
    using assms by (intro quads_row_in_range) auto
  then have "collect (map (\<lambda>i. quads_row conn (4 * i) 9) [0..<nelems])
             = Inr (map (\<lambda>i. take 9 (drop (4 * i) conn)) [0..<nelems])"
    by (rule collect_cong_Inr)
  then show ?thesis
    unfolding QuadForest_createMeshConn_def by simp
qed

text \<open>
  C2. For order 3 the connectivity of element \<open>k\<close> should be the entries \<open>[9k, 9k+9)\<close> of
  the buffer. With two elements and the buffer \<open>0, 1, ..., 17\<close> the method returns the
  entries \<open>4, ..., 12\<close> as the nodes of element 1, not the block \<open>9, ..., 17\<close>: the order-3
  branch strides the buffer by 4, as the order-2 branch does.
\<close>

theorem createMeshConn_order3_stride:
  "QuadForest_createMeshConn 3 (map int [0..<18]) 2 =
     Inr [[0, 1, 2, 3, 4, 5, 6, 7, 8], [4, 5, 6, 7, 8, 9, 10, 11, 12]]
   \<and> conn_block (map int [0..<18]) 9 1 = [9, 10, 11, 12, 13, 14, 15, 16, 17]"
  by (simp add: QuadForest_createMeshConn_def quads_row_def conn_at_def conn_block_def
      upt_conv_Cons)

text \<open>
  C10. \<^verbatim>\<open>__getitem__\<close> and \<^verbatim>\<open>__setitem__\<close> of both array wrappers raise \<open>IndexError\<close>
  exactly when \<open>k\<close> is outside \<open>[0, size)\<close>; inside the range \<^verbatim>\<open>__getitem__\<close> returns an
  octant (quadrant) whose fields are those of entry \<open>k\<close>; \<^verbatim>\<open>__getitem__\<close> never changes
  the array.
\<close>

theorem array_index_contract:
  "((\<exists>m. fst (OctantArray_getitem array k) = Inl (IndexError m)) \<longleftrightarrow> (k < 0 \<or> int (length array) \<le> k))
   \<and> ((\<exists>m. fst (OctantArray_setitem array k v) = Inl (IndexError m)) \<longleftrightarrow> (k < 0 \<or> int (length array) \<le> k))
   \<and> ((\<exists>m. fst (QuadrantArray_getitem qarray k) = Inl (IndexError m)) \<longleftrightarrow> (k < 0 \<or> int (length qarray) \<le> k))
   \<and> ((\<exists>m. fst (QuadrantArray_setitem qarray k w) = Inl (IndexError m)) \<longleftrightarrow> (k < 0 \<or> int (length qarray) \<le> k))
   \<and> (0 \<le> k \<and> k < int (length array) \<longrightarrow>
        (\<exists>oc. fst (OctantArray_getitem array k) = Inr oc
           \<and> oct_x oc = oct_x (array ! nat k) \<and> oct_y oc = oct_y (array ! nat k)
           \<and> oct_z oc = oct_z (array ! nat k) \<and> oct_level oc = oct_level (array ! nat k)
           \<and> oct_block oc = oct_block (array ! nat k) \<and> oct_tag oc = oct_tag (array ! nat k)))
   \<and> (0 \<le> k \<and> k < int (length qarray) \<longrightarrow>
        (\<exists>quad. fst (QuadrantArray_getitem qarray k) = Inr quad
           \<and> quad_x quad = quad_x (qarray ! nat k) \<and> quad_y quad = quad_y (qarray ! nat k)
           \<and> quad_level quad = quad_level (qarray ! nat k)
           \<and> quad_face quad = quad_face (qarray ! nat k) \<and> quad_tag quad = quad_tag (qarray ! nat k)))
   \<and> snd (OctantArray_getitem array k) = array
   \<and> snd (QuadrantArray_getitem qarray k) = qarray"
  by (simp add: OctantArray_getitem_def OctantArray_setitem_def QuadrantArray_getitem_def
      QuadrantArray_setitem_def Octant_cinit_def Quadrant_cinit_def Let_def)

theorem array_index_contract_witness:
  "fst (OctantArray_getitem [Octant_cinit\<lparr>oct_x := 4, oct_level := 2\<rparr>] 0)
     = Inr (Octant_cinit\<lparr>oct_x := 4, oct_level := 2\<rparr>)
   \<and> (\<exists>m. fst (OctantArray_getitem [Octant_cinit\<lparr>oct_x := 4, oct_level := 2\<rparr>] 1) = Inl (IndexError m))
   \<and> (\<exists>m. fst (QuadrantArray_setitem [Quadrant_cinit] (- 1) Quadrant_cinit) = Inl (IndexError m))"
  using array_index_contract [of "[Octant_cinit\<lparr>oct_x := 4, oct_level := 2\<rparr>]" 0 Octant_cinit
                                 "[Quadrant_cinit]" Quadrant_cinit]
        array_index_contract [of "[Octant_cinit\<lparr>oct_x := 4, oct_level := 2\<rparr>]" 1 Octant_cinit
                                 "[Quadrant_cinit]" Quadrant_cinit]
        array_index_contract [of "[Octant_cinit\<lparr>oct_x := 4, oct_level := 2\<rparr>]" "- 1" Octant_cinit
                                 "[Quadrant_cinit]" Quadrant_cinit]
  by (simp add: OctantArray_getitem_def Octant_cinit_def Let_def)

section \<open>Results on uniqueSort\<close>

lemma take_drop_step:
  assumes "i < sz" "sz \<le> length xs"
  shows "take (sz - i) (drop i xs) = xs ! i # take (sz - Suc i) (drop (Suc i) xs)"
proof -
  obtain m where m: "sz - i = Suc m" using assms by (cases "sz - i") auto
  then have "sz - Suc i = m" by simp
  moreover have "drop i xs = xs ! i # drop (Suc i) xs"
    using assms by (simp add: Cons_nth_drop_Suc)
  ultimately show ?thesis using m by simp
qed

lemma uniq_inner_spec:
  assumes "j \<le> i" "i < sz" "sz \<le> length array" "index (array ! j) = index (array ! i)"
  shows "i \<le> snd (uniq_inner array sz i j) \<and> snd (uniq_inner array sz i j) < sz
       \<and> length (fst (uniq_inner array sz i j)) = length array
       \<and> (\<forall>k. k \<noteq> j \<longrightarrow> fst (uniq_inner array sz i j) ! k = array ! k)
       \<and> merge_runs (array ! j # take (sz - Suc i) (drop (Suc i) array))
           = fst (uniq_inner array sz i j) ! j
             # merge_runs (take (sz - Suc (snd (uniq_inner array sz i j)))
                            (drop (Suc (snd (uniq_inner array sz i j))) array))"
  using assms
proof (induction array sz i j rule: uniq_inner.induct)
  case (1 array sz i j)
  let ?c = "int i < int sz - 1 \<and> index (array ! i) = index (array ! (i + 1))"
  show ?case
  proof (cases ?c)
    case False
    have r: "uniq_inner array sz i j = (array, i)"
      using False by (subst uniq_inner.simps) auto
    show ?thesis
    proof (cases "Suc i < sz")
      case True
      with False have ne: "index (array ! i) \<noteq> index (array ! Suc i)" by simp
      from True "1.prems" have "take (sz - Suc i) (drop (Suc i) array)
          = array ! Suc i # take (sz - Suc (Suc i)) (drop (Suc (Suc i)) array)"
        by (intro take_drop_step) simp_all
      with ne "1.prems" r show ?thesis by simp
    next
      case False
      with "1.prems" r show ?thesis by simp
    qed
  next
    case True
    define acc where "acc = (array ! j)\<lparr>weight := dadd (weight (array ! j)) (weight (array ! (i + 1)))\<rparr>"
    define arr1 where "arr1 = array[j := acc]"
    have r: "uniq_inner array sz i j = uniq_inner arr1 sz (i + 1) j"
      using True by (subst uniq_inner.simps) (simp add: arr1_def acc_def)
    from True have lt: "Suc i < sz" by simp
    have jlen: "j < length array" using "1.prems" by simp
    have idx: "index (arr1 ! j) = index (arr1 ! (i + 1))"
      using True "1.prems" jlen by (simp add: arr1_def acc_def)
    have IH: "i + 1 \<le> snd (uniq_inner arr1 sz (i + 1) j) \<and> snd (uniq_inner arr1 sz (i + 1) j) < sz
       \<and> length (fst (uniq_inner arr1 sz (i + 1) j)) = length arr1
       \<and> (\<forall>k. k \<noteq> j \<longrightarrow> fst (uniq_inner arr1 sz (i + 1) j) ! k = arr1 ! k)
       \<and> merge_runs (arr1 ! j # take (sz - Suc (i + 1)) (drop (Suc (i + 1)) arr1))
           = fst (uniq_inner arr1 sz (i + 1) j) ! j
             # merge_runs (take (sz - Suc (snd (uniq_inner arr1 sz (i + 1) j)))
                            (drop (Suc (snd (uniq_inner arr1 sz (i + 1) j))) arr1))"
      using "1.IH" [OF True, folded acc_def, folded arr1_def] "1.prems" lt idx
      by (simp add: arr1_def)
    have d1: "\<And>m. j < m \<Longrightarrow> drop m arr1 = drop m array"
      by (simp add: arr1_def)
    have a1: "arr1 ! j = acc" using jlen by (simp add: arr1_def)
    have tk: "take (sz - Suc i) (drop (Suc i) array)
        = array ! Suc i # take (sz - Suc (Suc i)) (drop (Suc (Suc i)) array)"
      using lt "1.prems" by (intro take_drop_step) simp_all
    have "merge_runs (array ! j # take (sz - Suc i) (drop (Suc i) array))
        = merge_runs (acc # take (sz - Suc (Suc i)) (drop (Suc (Suc i)) array))"
      using True "1.prems" by (simp add: tk acc_def)
    also have "\<dots> = merge_runs (arr1 ! j # take (sz - Suc (i + 1)) (drop (Suc (i + 1)) arr1))"
      using "1.prems" by (simp add: a1 d1)
    finally have eq: "merge_runs (array ! j # take (sz - Suc i) (drop (Suc i) array))
        = merge_runs (arr1 ! j # take (sz - Suc (i + 1)) (drop (Suc (i + 1)) arr1))" .
    have d2: "drop (Suc (snd (uniq_inner arr1 sz (i + 1) j))) arr1
            = drop (Suc (snd (uniq_inner arr1 sz (i + 1) j))) array"
      using IH "1.prems" by (intro d1) simp
    have other: "\<forall>k. k \<noteq> j \<longrightarrow> arr1 ! k = array ! k"
      by (simp add: arr1_def)
    show ?thesis
      unfolding r using IH eq d2 other by (simp add: arr1_def)
  qed
qed

lemma uniq_outer_spec:
  assumes "j \<le> i" "i \<le> sz" "sz \<le> length array"
  shows "length (fst (uniq_outer array sz i j)) = length array
       \<and> snd (uniq_outer array sz i j) \<le> sz
       \<and> take (snd (uniq_outer array sz i j)) (fst (uniq_outer array sz i j))
           = take j array @ merge_runs (take (sz - i) (drop i array))"
  using assms
proof (induction array sz i j rule: uniq_outer.induct)
  case (1 array sz i j)
  show ?case
  proof (cases "i < sz")
    case False
    then have "uniq_outer array sz i j = (array, j)"
      by (subst uniq_outer.simps) simp
    with False "1.prems" show ?thesis by simp
  next
    case True
    define arr1 where "arr1 = (if i \<noteq> j then array[j := array ! i] else array)"
    define r where "r = uniq_inner arr1 sz i j"
    have step: "uniq_outer array sz i j = uniq_outer (fst r) sz (snd r + 1) (j + 1)"
      using True by (subst uniq_outer.simps) (simp add: arr1_def r_def Let_def)
    have jlen: "j < length array" and ilen: "i < length array" using True "1.prems" by simp_all
    have a1j: "arr1 ! j = array ! i" using jlen by (simp add: arr1_def)
    have a1i: "arr1 ! i = array ! i" using jlen by (auto simp: arr1_def)
    have len1: "length arr1 = length array" by (simp add: arr1_def)
    have d1: "\<And>m. j < m \<Longrightarrow> drop m arr1 = drop m array" by (simp add: arr1_def)
    have t1: "take j arr1 = take j array" by (simp add: arr1_def)
    have inner: "i \<le> snd r \<and> snd r < sz \<and> length (fst r) = length arr1
       \<and> (\<forall>k. k \<noteq> j \<longrightarrow> fst r ! k = arr1 ! k)
       \<and> merge_runs (arr1 ! j # take (sz - Suc i) (drop (Suc i) arr1))
           = fst r ! j # merge_runs (take (sz - Suc (snd r)) (drop (Suc (snd r)) arr1))"
      unfolding r_def using "1.prems" True len1 a1j a1i
      by (intro uniq_inner_spec) simp_all
    have IH: "length (fst (uniq_outer (fst r) sz (snd r + 1) (j + 1))) = length (fst r)
       \<and> snd (uniq_outer (fst r) sz (snd r + 1) (j + 1)) \<le> sz
       \<and> take (snd (uniq_outer (fst r) sz (snd r + 1) (j + 1)))
              (fst (uniq_outer (fst r) sz (snd r + 1) (j + 1)))
           = take (j + 1) (fst r) @ merge_runs (take (sz - (snd r + 1)) (drop (snd r + 1) (fst r)))"
      using "1.IH" [OF True arr1_def r_def] inner "1.prems" len1 by simp
    have "take (j + 1) (fst r) = take j (fst r) @ [fst r ! j]"
      using inner len1 jlen by (simp add: take_Suc_conv_app_nth)
    moreover have "take j (fst r) = take j arr1"
      using inner len1 jlen by (intro nth_take_lemma) auto
    ultimately have tj: "take (j + 1) (fst r) = take j array @ [fst r ! j]"
      by (simp add: t1)
    have "drop (snd r + 1) (fst r) = drop (snd r + 1) arr1"
      using inner "1.prems" by (intro nth_equalityI) auto
    also have "\<dots> = drop (snd r + 1) array"
      using inner "1.prems" by (intro d1) simp
    finally have dr: "drop (snd r + 1) (fst r) = drop (snd r + 1) array" .
    have "take (sz - i) (drop i array) = array ! i # take (sz - Suc i) (drop (Suc i) array)"
      using True "1.prems" by (intro take_drop_step) simp_all
    then have "merge_runs (take (sz - i) (drop i array))
             = merge_runs (arr1 ! j # take (sz - Suc i) (drop (Suc i) arr1))"
      using "1.prems" by (simp add: a1j d1)
    also have "\<dots> = fst r ! j # merge_runs (take (sz - Suc (snd r)) (drop (Suc (snd r)) array))"
      using inner "1.prems" d1 [of "Suc (snd r)"] by simp
    finally have mr: "merge_runs (take (sz - i) (drop i array))
             = fst r ! j # merge_runs (take (sz - Suc (snd r)) (drop (Suc (snd r)) array))" .
    show ?thesis
      unfolding step using IH inner len1 tj dr mr by simp
  qed
qed

lemma merge_runs_length: "length (merge_runs xs) \<le> length xs"
  by (induction xs rule: merge_runs.induct) auto

lemma merge_runs_index_set: "index ` set (merge_runs xs) = index ` set xs"
  by (induction xs rule: merge_runs.induct) auto

lemma merge_runs_strict:
  "sorted (map (\<lambda>a. sint (index a)) xs)
     \<Longrightarrow> sorted_wrt (<) (map (\<lambda>a. sint (index a)) (merge_runs xs))"
proof (induction xs rule: merge_runs.induct)
  case (3 a b xs)
  show ?case
  proof (cases "index a = index b")
    case True
    with 3 show ?thesis by simp
  next
    case False
    then have lt: "sint (index a) < sint (index b)"
      using "3.prems" by (auto simp: order_less_le dest: signed_word_eqI)
    have "sint (index a) < sint (index e)" if "e \<in> set (merge_runs (b # xs))" for e
    proof -
      from that have "index e \<in> index ` set (b # xs)"
        using merge_runs_index_set [of "b # xs"] by blast
      then obtain c where "c \<in> set (b # xs)" "index e = index c" by auto
      then have "sint (index b) \<le> sint (index e)"
        using "3.prems" by auto
      with lt show ?thesis by simp
    qed
    with False 3 show ?thesis by simp
  qed
qed simp_all

lemma distinct_index_filter:
  assumes "sorted_wrt (<) (map (\<lambda>a. sint (index a)) ys)" "e \<in> set ys"
  shows "filter (\<lambda>a. index a = index e) ys = [e]"
  using assms
proof (induction ys)
  case (Cons y ys)
  show ?case
  proof (cases "e = y")
    case True
    have "filter (\<lambda>a. index a = index y) ys = []"
      using Cons.prems by (auto simp: filter_empty_conv)
    with True show ?thesis by simp
  next
    case False
    with Cons.prems have "e \<in> set ys" by simp
    moreover from this Cons.prems have "index y \<noteq> index e" by auto
    ultimately show ?thesis using Cons by simp
  qed
qed simp

lemma qsort_insert_mset: "mset (qsort_insert a xs) = add_mset a (mset xs)"
  by (induction xs) auto

lemma qsort_fold_mset: "mset (foldr qsort_insert xs []) = mset xs"
  by (induction xs) (auto simp: qsort_insert_mset)

lemma compare_weights_in_range:
  assumes "- (2 ^ 31) \<le> sint (index a) - sint (index b)" "sint (index a) - sint (index b) < 2 ^ 31"
  shows "compare_weights a b = sint (index a) - sint (index b)"
  using assms by (simp add: compare_weights_def sint_word_ariths signed_take_bit_int_eq_self)

lemma qsort_insert_sorted:
  assumes "no_overflow (a # xs)" "sorted (map (\<lambda>a. sint (index a)) xs)"
  shows "sorted (map (\<lambda>a. sint (index a)) (qsort_insert a xs))"
  using assms
proof (induction xs)
  case (Cons b bs)
  have cw: "compare_weights a b = sint (index a) - sint (index b)"
    using Cons.prems(1) by (intro compare_weights_in_range) (simp_all add: no_overflow_def)
  have no: "no_overflow (a # bs)"
    using Cons.prems(1) by (simp add: no_overflow_def)
  have set: "set (qsort_insert a bs) = insert a (set bs)"
    using qsort_insert_mset [of a bs] by (metis set_mset_add_mset_insert set_mset_mset)
  show ?case
  proof (cases "compare_weights a b \<le> 0")
    case True
    with cw Cons.prems(2) show ?thesis by auto
  next
    case False
    with cw Cons.prems(2) Cons.IH [OF no] set show ?thesis by auto
  qed
qed simp

lemma qsort_fold_sorted:
  "no_overflow xs \<Longrightarrow> sorted (map (\<lambda>a. sint (index a)) (foldr qsort_insert xs []))"
proof (induction xs)
  case (Cons a xs)
  have no: "no_overflow xs" using Cons.prems by (simp add: no_overflow_def)
  have "set (foldr qsort_insert xs []) = set xs"
    using qsort_fold_mset [of xs] by (metis set_mset_mset)
  with Cons.prems have "no_overflow (a # foldr qsort_insert xs [])"
    by (simp add: no_overflow_def)
  with Cons.IH [OF no] show ?case by (simp add: qsort_insert_sorted)
qed simp

lemma merge_runs_fold:
  assumes "sorted (map (\<lambda>a. sint (index a)) xs)" "e \<in> set (merge_runs xs)"
  shows "weight e = dsum (map weight (filter (\<lambda>a. index a = index e) xs))"
  using assms
proof (induction xs rule: merge_runs.induct)
  case (3 a b xs)
  show ?case
  proof (cases "index a = index b")
    case True
    define a' where "a' = a\<lparr>weight := dadd (weight a) (weight b)\<rparr>"
    have srt: "sorted (map (\<lambda>a. sint (index a)) (a' # xs))"
      using "3.prems"(1) by (simp add: a'_def)
    have mem: "e \<in> set (merge_runs (a' # xs))"
      using "3.prems"(2) True by (simp add: a'_def)
    have IH: "weight e = dsum (map weight (filter (\<lambda>c. index c = index e) (a' # xs)))"
      using "3.IH"(1) [OF True, folded a'_def, OF srt mem] .
    show ?thesis
    proof (cases "index a = index e")
      case same: True
      with True IH show ?thesis by (simp add: a'_def)
    next
      case False
      with True IH show ?thesis by (simp add: a'_def)
    qed
  next
    case False
    then have lt: "sint (index a) < sint (index b)"
      using "3.prems"(1) by (auto simp: order_less_le dest: signed_word_eqI)
    have later: "sint (index a) < sint (index c)" if "c \<in> set (b # xs)" for c
      using that "3.prems"(1) lt by auto
    show ?thesis
    proof (cases "index e = index a")
      case True
      have "e \<notin> set (merge_runs (b # xs))"
      proof
        assume "e \<in> set (merge_runs (b # xs))"
        then have "index e \<in> index ` set (b # xs)"
          using merge_runs_index_set [of "b # xs"] by blast
        then obtain c where "c \<in> set (b # xs)" "index e = index c" by auto
        with later [of c] True show False by simp
      qed
      with "3.prems"(2) False have ea: "e = a" by simp
      have "filter (\<lambda>c. index c = index a) (b # xs) = []"
        using later by (fastforce simp: filter_empty_conv)
      with ea show ?thesis by simp
    next
      case ne: False
      with "3.prems"(2) False have mem: "e \<in> set (merge_runs (b # xs))" by auto
      have "sorted (map (\<lambda>a. sint (index a)) (b # xs))"
        using "3.prems"(1) by simp
      from "3.IH"(2) [OF False this mem] ne show ?thesis by auto
    qed
  qed
qed simp_all

lemma merge_runs_exact_by_index:
  "runs_exact xs \<Longrightarrow>
     sum_list (map (\<lambda>a. dval (weight a)) (filter (\<lambda>a. index a = v) (merge_runs xs)))
       = sum_list (map (\<lambda>a. dval (weight a)) (filter (\<lambda>a. index a = v) xs))"
  by (induction xs rule: merge_runs.induct) (auto simp: exact_add_def)

lemma merge_runs_exact_total:
  "runs_exact xs \<Longrightarrow>
     sum_list (map (\<lambda>a. dval (weight a)) (merge_runs xs)) = sum_list (map (\<lambda>a. dval (weight a)) xs)"
  by (induction xs rule: merge_runs.induct) (auto simp: exact_add_def)

lemma sum_filter_perm:
  fixes f :: "TMRIndexWeight \<Rightarrow> real"
  assumes "mset xs = mset ys"
  shows "sum_list (map f (filter P xs)) = sum_list (map f (filter P ys))"
proof -
  have "\<And>zs. sum_list (map f (filter P zs)) = sum_mset (image_mset f (filter_mset P (mset zs)))"
    by (metis mset_filter mset_map sum_mset_sum_list)
  with assms show ?thesis by simp
qed

text \<open>
  The loops on any array whose first entries are sorted by the index, in whatever order
  the sort has left the entries of one index: \<open>srt\<close> is a rearrangement of \<open>xs\<close>.
\<close>

lemma loops_on_sorted:
  assumes perm: "mset srt = mset xs"
    and sorted: "sorted (map (\<lambda>a. sint (index a)) srt)"
    and res: "res = take (snd (uniq_outer (srt @ rest) (length srt) 0 0))
                         (fst (uniq_outer (srt @ rest) (length srt) 0 0))"
  shows "snd (uniq_outer (srt @ rest) (length srt) 0 0) \<le> length xs
    \<and> sorted_wrt (<) (map (\<lambda>a. sint (index a)) res)
    \<and> index ` set res = index ` set xs
    \<and> (\<forall>e \<in> set res. weight e = dsum (map weight (filter (\<lambda>a. index a = index e) srt)))
    \<and> (runs_exact srt \<longrightarrow>
         (\<forall>e \<in> set res. dval (weight e)
             = sum_list (map (\<lambda>a. dval (weight a)) (filter (\<lambda>a. index a = index e) xs)))
         \<and> sum_list (map (\<lambda>a. dval (weight a)) res) = sum_list (map (\<lambda>a. dval (weight a)) xs))"
proof -
  have len: "length srt = length xs"
    using perm by (metis size_mset)
  have spec: "snd (uniq_outer (srt @ rest) (length srt) 0 0) \<le> length srt
      \<and> res = merge_runs srt"
    using uniq_outer_spec [of 0 0 "length srt" "srt @ rest"] by (simp add: res)
  then have r: "res = merge_runs srt" and j: "snd (uniq_outer (srt @ rest) (length srt) 0 0) \<le> length xs"
    using len by simp_all
  have strict: "sorted_wrt (<) (map (\<lambda>a. sint (index a)) res)"
    unfolding r using sorted by (rule merge_runs_strict)
  have "set srt = set xs"
    using perm by (metis set_mset_mset)
  then have idx: "index ` set res = index ` set xs"
    by (simp add: r merge_runs_index_set)
  have fold: "\<forall>e \<in> set res. weight e = dsum (map weight (filter (\<lambda>a. index a = index e) srt))"
    unfolding r using sorted by (auto intro: merge_runs_fold)
  have exact: "(\<forall>e \<in> set res. dval (weight e)
             = sum_list (map (\<lambda>a. dval (weight a)) (filter (\<lambda>a. index a = index e) xs)))
         \<and> sum_list (map (\<lambda>a. dval (weight a)) res) = sum_list (map (\<lambda>a. dval (weight a)) xs)"
    if ex: "runs_exact srt"
  proof -
    have w: "dval (weight e)
        = sum_list (map (\<lambda>a. dval (weight a)) (filter (\<lambda>a. index a = index e) xs))"
      if "e \<in> set res" for e
    proof -
      have "dval (weight e)
          = sum_list (map (\<lambda>a. dval (weight a)) (filter (\<lambda>a. index a = index e) res))"
        using distinct_index_filter [OF strict that] by simp
      also have "\<dots> = sum_list (map (\<lambda>a. dval (weight a)) (filter (\<lambda>a. index a = index e) srt))"
        unfolding r using ex by (rule merge_runs_exact_by_index)
      also have "\<dots> = sum_list (map (\<lambda>a. dval (weight a)) (filter (\<lambda>a. index a = index e) xs))"
        using perm by (rule sum_filter_perm)
      finally show ?thesis .
    qed
    have "sum_list (map (\<lambda>a. dval (weight a)) res) = sum_list (map (\<lambda>a. dval (weight a)) srt)"
      unfolding r using ex by (rule merge_runs_exact_total)
    also have "\<dots> = sum_list (map (\<lambda>a. dval (weight a)) xs)"
      using sum_filter_perm [OF perm, of "\<lambda>a. dval (weight a)" "\<lambda>_. True"] by simp
    finally show ?thesis using w by blast
  qed
  from j strict idx fold exact show ?thesis by blast
qed

text \<open>
  An addition whose exact sum fits into 53 bits at the smaller exponent is exact: the
  model rounds only where the hardware does.
\<close>

lemma dval_signed_mant: "dval (Finite s m e) = real_of_int (signed_mant s m) * 2 powi e"
  by (simp add: signed_mant_def)

lemma dval_shift:
  fixes x :: int
  assumes "e \<le> e1"
  shows "real_of_int (x * 2 ^ nat (e1 - e)) * 2 powi e = real_of_int x * 2 powi e1"
proof -
  have "(2::real) powi e1 = 2 powi (int (nat (e1 - e)) + e)"
    using assms by simp
  also have "\<dots> = 2 ^ nat (e1 - e) * 2 powi e"
    by (simp only: power_int_add [of "2::real", simplified] power_int_of_nat)
  finally show ?thesis by simp
qed

lemma dadd_exact_unrounded:
  assumes "nbits (nat \<bar>signed_mant s1 m1 * 2 ^ nat (e1 - min e1 e2)
             + signed_mant s2 m2 * 2 ^ nat (e2 - min e1 e2)\<bar>) \<le> 53"
    and "min e1 e2 \<le> 971"
  shows "exact_add (Finite s1 m1 e1) (Finite s2 m2 e2)"
proof -
  define e where "e = min e1 e2"
  define t where "t = signed_mant s1 m1 * 2 ^ nat (e1 - e) + signed_mant s2 m2 * 2 ^ nat (e2 - e)"
  have nb: "nbits (nat \<bar>t\<bar>) \<le> 53" using assms(1) by (simp add: t_def e_def)
  have a: "real_of_int (signed_mant s1 m1 * 2 ^ nat (e1 - e)) * 2 powi e = dval (Finite s1 m1 e1)"
    unfolding dval_signed_mant by (rule dval_shift) (simp add: e_def)
  have b: "real_of_int (signed_mant s2 m2 * 2 ^ nat (e2 - e)) * 2 powi e = dval (Finite s2 m2 e2)"
    unfolding dval_signed_mant by (rule dval_shift) (simp add: e_def)
  have "real_of_int t * 2 powi e
      = real_of_int (signed_mant s1 m1 * 2 ^ nat (e1 - e)) * 2 powi e
        + real_of_int (signed_mant s2 m2 * 2 ^ nat (e2 - e)) * 2 powi e"
    unfolding t_def by (simp only: of_int_add distrib_right)
  hence sum: "real_of_int t * 2 powi e = dval (Finite s1 m1 e1) + dval (Finite s2 m2 e2)"
    by (simp only: a b)
  have fin: "finish (s1 \<and> s2) t e
      = (if t = 0 then Finite (s1 \<and> s2) 0 e else Finite (t < 0) (nat \<bar>t\<bar>) e)"
    using nb assms(2) by (simp add: finish_def round_pack_def round_half_even_def pack_def e_def)
  have val: "dval (finish (s1 \<and> s2) t e) = real_of_int t * 2 powi e"
    unfolding fin by (cases "t < 0") (auto simp: abs_if)
  have "dadd (Finite s1 m1 e1) (Finite s2 m2 e2) = finish (s1 \<and> s2) t e"
    by (simp add: t_def e_def)
  with fin val sum show ?thesis
    by (simp add: exact_add_def)
qed

lemmas double_arith = round_pack_def round_half_even_def pack_def signed_mant_def finish_def
  nbits.simps

text \<open>
  C9. For an array of \<open>sz\<close> entries in which no difference of two indices overflows,
  \<^verbatim>\<open>uniqueSort\<close> returns a length \<open>j \<le> sz\<close>; the first \<open>j\<close> entries have strictly
  increasing indices, which are exactly the indices of the input; the weight stored with
  an index is the sum, in double arithmetic and from left to right in the order in which
  the sort has left them, of the weights that the input carries for it. When none of
  these additions rounds or overflows, that weight is the exact sum of those weights, and
  the sum of all weights is unchanged.
\<close>

theorem uniqueSort_in_range:
  assumes "sz \<le> length array" "no_overflow (take sz array)"
  shows "snd (uniqueSort array sz) \<le> sz
    \<and> sorted_wrt (<) (map (\<lambda>a. sint (index a)) (take (snd (uniqueSort array sz)) (fst (uniqueSort array sz))))
    \<and> index ` set (take (snd (uniqueSort array sz)) (fst (uniqueSort array sz))) = index ` set (take sz array)
    \<and> mset (take sz (qsort array sz)) = mset (take sz array)
    \<and> (\<forall>e \<in> set (take (snd (uniqueSort array sz)) (fst (uniqueSort array sz))).
          weight e = dsum (map weight (filter (\<lambda>a. index a = index e) (take sz (qsort array sz)))))
    \<and> (runs_exact (take sz (qsort array sz)) \<longrightarrow>
          (\<forall>e \<in> set (take (snd (uniqueSort array sz)) (fst (uniqueSort array sz))).
             dval (weight e)
               = sum_list (map (\<lambda>a. dval (weight a)) (filter (\<lambda>a. index a = index e) (take sz array))))
          \<and> sum_list (map (\<lambda>a. dval (weight a)) (take (snd (uniqueSort array sz)) (fst (uniqueSort array sz))))
              = sum_list (map (\<lambda>a. dval (weight a)) (take sz array)))"
proof -
  define srt where "srt = foldr qsort_insert (take sz array) []"
  have perm: "mset srt = mset (take sz array)"
    by (simp add: srt_def qsort_fold_mset)
  have sorted: "sorted (map (\<lambda>a. sint (index a)) srt)"
    unfolding srt_def using assms(2) by (rule qsort_fold_sorted)
  have len: "length srt = sz"
    using perm assms(1) by (metis length_take min.absorb2 size_mset)
  have tk: "take sz (qsort array sz) = srt"
    by (simp add: qsort_def srt_def [symmetric] len)
  have run: "uniqueSort array sz = uniq_outer (srt @ drop sz array) (length srt) 0 0"
    by (simp add: uniqueSort_def qsort_def srt_def [symmetric] len)
  have lenx: "length (take sz array) = sz"
    using assms(1) by simp
  show ?thesis
    unfolding run tk
    using loops_on_sorted [OF perm sorted refl, of "drop sz array", unfolded lenx] perm
    by blast
qed

theorem uniqueSort_in_range_witness:
  "uniqueSort sample_weights 4
     = ([\<lparr>index = - 1, weight = Finite False 1 (- 1)\<rparr>, \<lparr>index = 3, weight = Finite False 1 1\<rparr>,
         \<lparr>index = 5, weight = Finite False 5 0\<rparr>, \<lparr>index = 5, weight = Finite False 1 2\<rparr>], 3)
   \<and> runs_exact (take 4 (qsort sample_weights 4))
   \<and> sorted_wrt (<) (map (\<lambda>a. sint (index a))
        (take (snd (uniqueSort sample_weights 4)) (fst (uniqueSort sample_weights 4))))
   \<and> sum_list (map (\<lambda>a. dval (weight a))
        (take (snd (uniqueSort sample_weights 4)) (fst (uniqueSort sample_weights 4))))
       = 15 / 2"
proof -
  have h1: "4 \<le> length sample_weights"
    by (simp add: sample_weights_def)
  have h2: "no_overflow (take 4 sample_weights)"
    by (simp add: sample_weights_def no_overflow_def)
  have srt: "take 4 (qsort sample_weights 4)
      = [\<lparr>index = - 1, weight = Finite False 1 (- 1)\<rparr>, \<lparr>index = 3, weight = Finite False 1 1\<rparr>,
         \<lparr>index = 5, weight = Finite False 1 0\<rparr>, \<lparr>index = 5, weight = Finite False 1 2\<rparr>]"
    by (simp add: sample_weights_def qsort_def compare_weights_def)
  have ex: "runs_exact (take 4 (qsort sample_weights 4))"
    unfolding srt by (simp add: exact_add_def double_arith)
  have total: "sum_list (map (\<lambda>a. dval (weight a)) (take 4 sample_weights)) = 15 / 2"
    by (simp add: sample_weights_def)
  have run: "uniqueSort sample_weights 4
     = ([\<lparr>index = - 1, weight = Finite False 1 (- 1)\<rparr>, \<lparr>index = 3, weight = Finite False 1 1\<rparr>,
         \<lparr>index = 5, weight = Finite False 5 0\<rparr>, \<lparr>index = 5, weight = Finite False 1 2\<rparr>], 3)"
    by (simp add: sample_weights_def uniqueSort_def qsort_def compare_weights_def
        uniq_outer.simps uniq_inner.simps double_arith)
  from uniqueSort_in_range [OF h1 h2] ex have
    "sorted_wrt (<) (map (\<lambda>a. sint (index a))
        (take (snd (uniqueSort sample_weights 4)) (fst (uniqueSort sample_weights 4))))"
    and "sum_list (map (\<lambda>a. dval (weight a))
        (take (snd (uniqueSort sample_weights 4)) (fst (uniqueSort sample_weights 4))))
       = sum_list (map (\<lambda>a. dval (weight a)) (take 4 sample_weights))"
    by blast+
  with total run ex show ?thesis by simp
qed

text \<open>
  Two runs outside these conditions. With the entries \<open>(-2^31, 1)\<close> and \<open>(1, 2)\<close> the
  subtraction in \<^verbatim>\<open>compare_weights\<close> overflows: the sort puts index \<open>1\<close> before index
  \<open>-2^31\<close>, and the array returned is not in increasing order of the index. With the
  weights \<open>10^16\<close>, \<open>1\<close> and \<open>-10^16\<close> for one index, \<open>10^16 + 1\<close> rounds to \<open>10^16\<close>, and
  the weight stored is 0, where the weights add up to 1.
\<close>

theorem uniqueSort_comparator_overflow:
  "uniqueSort far_apart 2
     = ([\<lparr>index = 1, weight = Finite False 1 1\<rparr>,
         \<lparr>index = - 2147483648, weight = Finite False 1 0\<rparr>], 2)
   \<and> compare_weights (far_apart ! 0) (far_apart ! 1) = 2147483647
   \<and> sint (- 2147483648 :: 32 word) < sint (1 :: 32 word)
   \<and> no_overflow cancelling
   \<and> snd (uniqueSort cancelling 3) = 1
   \<and> hd (fst (uniqueSort cancelling 3)) = \<lparr>index = 4, weight = Finite False 0 1\<rparr>
   \<and> dval (Finite False 0 1) = 0
   \<and> sum_list (map (\<lambda>a. dval (weight a)) cancelling) = 1"
proof -
  have "uniqueSort far_apart 2
     = ([\<lparr>index = 1, weight = Finite False 1 1\<rparr>,
         \<lparr>index = - 2147483648, weight = Finite False 1 0\<rparr>], 2)"
    by (simp add: far_apart_def uniqueSort_def qsort_def compare_weights_def
        uniq_outer.simps uniq_inner.simps)
  moreover have "compare_weights (far_apart ! 0) (far_apart ! 1) = 2147483647"
    by (simp add: far_apart_def compare_weights_def)
  moreover have "sint (- 2147483648 :: 32 word) < sint (1 :: 32 word)"
    by simp
  moreover have "no_overflow cancelling"
    by (simp add: cancelling_def no_overflow_def)
  moreover have "uniqueSort cancelling 3
     = ([\<lparr>index = 4, weight = Finite False 0 1\<rparr>, \<lparr>index = 4, weight = Finite False 1 0\<rparr>,
         \<lparr>index = 4, weight = Finite True 152587890625 16\<rparr>], 1)"
    by (simp add: cancelling_def uniqueSort_def qsort_def compare_weights_def
        uniq_outer.simps uniq_inner.simps double_arith)
  moreover have "sum_list (map (\<lambda>a. dval (weight a)) cancelling) = 1"
    by (simp add: cancelling_def)
  ultimately show ?thesis by simp
qed

section \<open>Results on the node numbering\<close>

lemma node_range_nth:
  "r \<le> length held \<Longrightarrow> owned_node_range held ! r = sum_list (map (\<lambda>q. length (owned held q)) [0..<r])"
  unfolding owned_node_range_def by (simp add: nth_append less_Suc_eq_le del: upt_Suc)

lemma node_range_Suc:
  "r < length held \<Longrightarrow> owned_node_range held ! Suc r = owned_node_range held ! r + length (owned held r)"
  by (simp add: node_range_nth)

lemma set_owned:
  "set (owned held r) = set (held ! r) - (\<Union>q < r. set (held ! q))"
  by (auto simp: owned_def list_all_iff)

lemma owned_union:
  "n \<le> length held \<Longrightarrow> (\<Union>r < n. set (owned held r)) = (\<Union>r < n. set (held ! r))"
proof (induction n)
  case (Suc n)
  then have "(\<Union>r < n. set (owned held r)) = (\<Union>r < n. set (held ! r))" by simp
  then show ?case
    by (auto simp: lessThan_Suc set_owned)
qed simp

lemma map_snd_assign:
  "map snd (assign held r) = [owned_node_range held ! r ..< owned_node_range held ! r + length (owned held r)]"
  by (simp add: assign_def)

lemma map_fst_assign: "map fst (assign held r) = owned held r"
  by (simp add: assign_def)

lemma indices_prefix:
  "n \<le> length held \<Longrightarrow>
     concat (map (\<lambda>r. map snd (assign held r)) [0..<n]) = [0..<owned_node_range held ! n]"
proof (induction n)
  case 0
  then show ?case by (simp add: node_range_nth)
next
  case (Suc n)
  then have "concat (map (\<lambda>r. map snd (assign held r)) [0..<n]) = [0..<owned_node_range held ! n]"
    by simp
  moreover have "owned_node_range held ! Suc n = owned_node_range held ! n + length (owned held n)"
    using Suc.prems by (simp add: node_range_Suc)
  moreover have "[0..<owned_node_range held ! n + length (owned held n)]
      = [0..<owned_node_range held ! n]
        @ [owned_node_range held ! n..<owned_node_range held ! n + length (owned held n)]"
    by (rule upt_add_eq_append) simp
  ultimately show ?case
    by (simp add: map_snd_assign)
qed

lemma nodes_prefix_distinct:
  assumes "\<forall>r < length held. distinct (held ! r)"
  shows "n \<le> length held \<Longrightarrow> distinct (concat (map (owned held) [0..<n]))
     \<and> set (concat (map (owned held) [0..<n])) = (\<Union>r < n. set (held ! r))"
proof (induction n)
  case (Suc n)
  then have IH: "distinct (concat (map (owned held) [0..<n]))"
    "set (concat (map (owned held) [0..<n])) = (\<Union>r < n. set (held ! r))" by simp_all
  have d: "distinct (owned held n)"
    using assms Suc.prems by (simp add: owned_def)
  have disj: "set (owned held n) \<inter> (\<Union>r < n. set (held ! r)) = {}"
    by (auto simp: set_owned)
  have un: "(\<Union>r < n. set (held ! r)) \<union> set (owned held n) = (\<Union>r < Suc n. set (held ! r))"
    by (auto simp: set_owned lessThan_Suc)
  show ?case
    using IH d disj un by (simp add: Int_commute)
qed simp

lemma owned_node_range_mono:
  assumes "i \<le> j" "j \<le> length held"
  shows "owned_node_range held ! i \<le> owned_node_range held ! j"
proof -
  have "[0..<j] = [0..<i] @ [i..<j]"
    using assms(1) by (metis le_add_diff_inverse upt_add_eq_append zero_le)
  then have "sum_list (map (\<lambda>q. length (owned held q)) [0..<j])
      = sum_list (map (\<lambda>q. length (owned held q)) [0..<i])
        + sum_list (map (\<lambda>q. length (owned held q)) [i..<j])"
    by simp
  then show ?thesis
    using assms by (simp add: node_range_nth)
qed

lemma getNodeRange_copy:
  "OctForest_getNodeRange (TMROctForest_getOwnedNodeRange held) = Inr (map int (owned_node_range held))"
proof -
  have len: "length (owned_node_range held) = length held + 1"
    by (simp add: owned_node_range_def)
  have "collect (map (\<lambda>i. conn_at (map int (owned_node_range held)) i) [0..<length held + 1])
      = Inr (map (\<lambda>i. map int (owned_node_range held) ! i) [0..<length held + 1])"
    by (rule collect_cong_Inr) (auto simp: conn_at_def len)
  moreover have "map (\<lambda>i. map int (owned_node_range held) ! i) [0..<length held + 1]
      = map int (owned_node_range held)"
    using len by (intro nth_equalityI) (simp_all del: upt_Suc)
  ultimately show ?thesis
    by (simp add: OctForest_getNodeRange_def TMROctForest_getOwnedNodeRange_def del: upt_Suc)
qed

text \<open>
  C6. When no rank holds a node twice, the global indices that \<^verbatim>\<open>createNodes\<close> assigns are
  \<open>0, ..., N-1\<close>, each once, where \<open>N\<close> is the number of nodes held by some rank, and every
  such node has exactly one index. The range that \<^verbatim>\<open>getNodeRange\<close> returns has one more
  entry than there are ranks, begins with 0, ends with \<open>N\<close>, does not decrease, and the
  nodes numbered by rank \<open>r\<close> carry the indices from entry \<open>r\<close> up to entry \<open>r+1\<close>.
\<close>

theorem createNodes_numbering:
  assumes "\<forall>r < length held. distinct (held ! r)"
  shows "map snd (TMROctForest_createNodes held) = [0..<card (\<Union>r < length held. set (held ! r))]
     \<and> distinct (map fst (TMROctForest_createNodes held))
     \<and> set (map fst (TMROctForest_createNodes held)) = (\<Union>r < length held. set (held ! r))
     \<and> OctForest_getNodeRange (TMROctForest_getOwnedNodeRange held) = Inr (map int (owned_node_range held))
     \<and> length (owned_node_range held) = length held + 1
     \<and> owned_node_range held ! 0 = 0
     \<and> last (owned_node_range held) = card (\<Union>r < length held. set (held ! r))
     \<and> sorted (owned_node_range held)
     \<and> (\<forall>r < length held.
          map snd (assign held r) = [owned_node_range held ! r..<owned_node_range held ! (r + 1)])"
proof -
  let ?n = "length held"
  let ?U = "\<Union>r < ?n. set (held ! r)"
  have fst: "map fst (TMROctForest_createNodes held) = concat (map (owned held) [0..<?n])"
    by (simp add: TMROctForest_createNodes_def map_concat o_def map_fst_assign)
  have snd: "map snd (TMROctForest_createNodes held) = [0..<owned_node_range held ! ?n]"
    using indices_prefix [of ?n held] by (simp add: TMROctForest_createNodes_def map_concat o_def)
  have dist: "distinct (concat (map (owned held) [0..<?n]))"
    and un: "set (concat (map (owned held) [0..<?n])) = ?U"
    using nodes_prefix_distinct [OF assms, of ?n] by simp_all
  have "length (map fst (TMROctForest_createNodes held)) = length (map snd (TMROctForest_createNodes held))"
    by simp
  then have "length (concat (map (owned held) [0..<?n])) = owned_node_range held ! ?n"
    unfolding fst snd by simp
  moreover have "card ?U = length (concat (map (owned held) [0..<?n]))"
    using dist un by (metis distinct_card)
  ultimately have total: "owned_node_range held ! ?n = card ?U" by simp
  have len: "length (owned_node_range held) = ?n + 1"
    by (simp add: owned_node_range_def)
  have last: "last (owned_node_range held) = card ?U"
  proof -
    have "owned_node_range held \<noteq> []" using len by auto
    then have "last (owned_node_range held) = owned_node_range held ! ?n"
      using len by (simp add: last_conv_nth)
    with total show ?thesis by simp
  qed
  have zero: "owned_node_range held ! 0 = 0"
    by (simp add: node_range_nth)
  have srt: "sorted (owned_node_range held)"
    using len by (auto simp: sorted_iff_nth_mono intro: owned_node_range_mono)
  have blocks: "\<forall>r < ?n. map snd (assign held r)
      = [owned_node_range held ! r..<owned_node_range held ! (r + 1)]"
    by (simp add: map_snd_assign node_range_Suc)
  show ?thesis
    using fst snd dist un total len last zero srt blocks getNodeRange_copy by simp
qed

theorem createNodes_numbering_witness:
  "distinct (map fst (TMROctForest_createNodes four_ranks))
   \<and> TMROctForest_createNodes four_ranks
       = [(''a'', 0), (''b'', 1), (''c'', 2), (''d'', 3), (''e'', 4)]
   \<and> OctForest_getNodeRange (TMROctForest_getOwnedNodeRange four_ranks) = Inr [0, 3, 4, 4, 5]"
proof -
  have h: "\<forall>r < length four_ranks. distinct (four_ranks ! r)"
    by (simp add: four_ranks_def less_Suc_eq)
  have "distinct (map fst (TMROctForest_createNodes four_ranks))"
    using createNodes_numbering [OF h] by (elim conjE)
  moreover have "TMROctForest_createNodes four_ranks
      = [(''a'', 0), (''b'', 1), (''c'', 2), (''d'', 3), (''e'', 4)]"
    by (simp add: owned_node_range_def owned_def upt_conv_Cons TMROctForest_createNodes_def
        assign_def four_ranks_def)
  moreover have "OctForest_getNodeRange (TMROctForest_getOwnedNodeRange four_ranks)
      = Inr [0, 3, 4, 4, 5]"
    by (simp add: owned_node_range_def owned_def upt_conv_Cons OctForest_getNodeRange_def
        TMROctForest_getOwnedNodeRange_def conn_at_def four_ranks_def)
  ultimately show ?thesis by simp
qed

end
